theory Spec2Isabelle
  imports Main
begin

section \<open>JavaScript values and errors\<close>

text \<open>
  The controllers are browser clients written in JavaScript.  Values that travel through
  the modelled code are JSON payloads; \<open>JUndefined\<close> is what reading a missing
  property yields.  Numbers are never inspected by the modelled code beyond their
  truthiness.
\<close>

datatype jsval =
    JUndefined
  | JNull
  | JBool bool
  | JNum int
  | JStr string
  | JArr "jsval list"
  | JObj "(string \<times> jsval) list"

text \<open>A thrown value: the \<open>name\<close> and the \<open>message\<close> of an \<open>Error\<close> object.\<close>

datatype js_error = JsError (error_name: string) (error_message: string)

text \<open>The outcome of a promise that has settled.\<close>

datatype 'a settled = Resolved 'a | Rejected js_error

fun truthy :: "jsval \<Rightarrow> bool" where
  "truthy JUndefined = False"
| "truthy JNull = False"
| "truthy (JBool b) = b"
| "truthy (JNum n) = (n \<noteq> 0)"
| "truthy (JStr s) = (s \<noteq> [])"
| "truthy (JArr xs) = True"
| "truthy (JObj kvs) = True"

text \<open>\<open>a || b\<close>\<close>

definition js_or :: "jsval \<Rightarrow> jsval \<Rightarrow> jsval" where
  "js_or a b = (if truthy a then a else b)"

text \<open>
  \<open>v.k\<close>: a \<open>TypeError\<close> on \<open>null\<close> and \<open>undefined\<close>, the stored value on an
  object that has the key, \<open>undefined\<close> otherwise (none of the keys read by the
  modelled code is a built-in property of a string, a number or an array).
\<close>

fun get_prop :: "jsval \<Rightarrow> string \<Rightarrow> js_error + jsval" where
  "get_prop JUndefined k = Inl (JsError ''TypeError'' ''Cannot read properties of undefined'')"
| "get_prop JNull k = Inl (JsError ''TypeError'' ''Cannot read properties of null'')"
| "get_prop (JObj kvs) k = Inr (case map_of kvs k of None \<Rightarrow> JUndefined | Some v \<Rightarrow> v)"
| "get_prop v k = Inr JUndefined"

section \<open>\<open>useApi.request\<close>: the shared fetch helper\<close>

text \<open>
  What the browser hands back for one \<open>fetch\<close>: the promise rejects (\<open>Inl\<close>), or it
  resolves to a response.  \<open>http_status\<close> is \<open>response.status\<close>, \<open>body_text\<close> is the
  settled value of \<open>response.text()\<close> and \<open>body_json\<close> is what \<open>JSON.parse\<close> does on
  that text: the error it throws, or the value it returns.
\<close>

record response =
  ok :: bool
  http_status :: nat
  statusText :: string
  body_text :: "js_error + string"
  body_json :: "js_error + jsval"

text \<open>The hook's state: \<open>const [pending, setPending]\<close> and \<open>const [lastError, setLastError]\<close>.\<close>

record api =
  pending :: bool
  lastError :: "js_error option"

text \<open>
  The \<open>try\<close> block of \<open>request\<close> in the Alice and Faber controllers; \<open>Inl\<close> is a
  value thrown inside it.
\<close>

definition request_try :: "js_error + response \<Rightarrow> js_error + jsval" where
  "request_try f =
     (case f of
        Inl e \<Rightarrow> Inl e
      | Inr r \<Rightarrow>
          if \<not> ok r then
            (case body_text r of
               Inl e \<Rightarrow> Inl e
             | Inr message \<Rightarrow>
                 Inl (JsError ''Error'' (if message \<noteq> [] then message else statusText r)))
          else if http_status r = 204 then Inr JNull
          else
            (case body_text r of
               Inl e \<Rightarrow> Inl e
             | Inr body \<Rightarrow> if body \<noteq> [] then body_json r else Inr JNull))"

text \<open>
  \<open>request\<close>: \<open>setPending(true); setLastError(null)\<close>, the \<open>try\<close> block, the
  \<open>catch\<close> that records the error and throws it again, and the \<open>finally\<close> that
  resets \<open>pending\<close>.
\<close>

definition request_finish :: "js_error + jsval \<Rightarrow> api \<Rightarrow> jsval settled \<times> api" where
  "request_finish t st =
     (let st1 = st\<lparr>pending := True, lastError := None\<rparr> in
      case t of
        Inr v \<Rightarrow> (Resolved v, st1\<lparr>pending := False\<rparr>)
      | Inl e \<Rightarrow> (Rejected e, st1\<lparr>lastError := Some e, pending := False\<rparr>))"

definition request :: "js_error + response \<Rightarrow> api \<Rightarrow> jsval settled \<times> api" where
  "request f st = request_finish (request_try f) st"

text \<open>
  The Acme controller builds the message of a non-OK response differently.  Its inner
  \<open>catch\<close> reads \<open>errorData\<close>, a \<open>const\<close> of the inner \<open>try\<close> block that is out
  of scope there, so entering that \<open>catch\<close> throws a \<open>ReferenceError\<close>.
  \<open>str\<close> is JavaScript's conversion of a value to a string, applied by \<open>new Error\<close>
  to an argument that is not a string already.
\<close>

definition message_of :: "(jsval \<Rightarrow> string) \<Rightarrow> jsval \<Rightarrow> string" where
  "message_of str v = (case v of JStr s \<Rightarrow> s | _ \<Rightarrow> str v)"

definition acme_error_message :: "response \<Rightarrow> js_error + jsval" where
  "acme_error_message r =
     (case body_text r of
        Inl e \<Rightarrow> Inl e
      | Inr errorData \<Rightarrow>
          if errorData \<noteq> [] then
            (case body_json r of
               Inl e \<Rightarrow> Inl e
             | Inr parsed \<Rightarrow>
                 (case get_prop parsed ''error'' of
                    Inl e \<Rightarrow> Inl e
                  | Inr err \<Rightarrow>
                      if truthy err then Inr err
                      else (case get_prop parsed ''message'' of
                              Inl e \<Rightarrow> Inl e
                            | Inr m \<Rightarrow> Inr (js_or m (JStr errorData)))))
          else Inr (JStr (statusText r)))"

definition acme_request_try ::
  "(jsval \<Rightarrow> string) \<Rightarrow> js_error + response \<Rightarrow> js_error + jsval" where
  "acme_request_try str f =
     (case f of
        Inl e \<Rightarrow> Inl e
      | Inr r \<Rightarrow>
          if \<not> ok r then
            (case acme_error_message r of
               Inl e \<Rightarrow> Inl (JsError ''ReferenceError'' ''errorData is not defined'')
             | Inr errorMessage \<Rightarrow> Inl (JsError ''Error'' (message_of str errorMessage)))
          else if http_status r = 204 then Inr JNull
          else
            (case body_text r of
               Inl e \<Rightarrow> Inl e
             | Inr body \<Rightarrow> if body \<noteq> [] then body_json r else Inr JNull))"

definition acme_request ::
  "(jsval \<Rightarrow> string) \<Rightarrow> js_error + response \<Rightarrow> api \<Rightarrow> jsval settled \<times> api" where
  "acme_request str f st = request_finish (acme_request_try str f) st"

section \<open>Example inputs\<close>

definition api_idle :: api where
  "api_idle = \<lparr>pending = False, lastError = None\<rparr>"

text \<open>A 200 response whose body is an HTML page, not JSON.\<close>

definition html_200 :: response where
  "html_200 =
     \<lparr>ok = True, http_status = 200, statusText = ''OK'',
      body_text = Inr ''<html>'',
      body_json = Inl (JsError ''SyntaxError'' ''Unexpected token <'')\<rparr>"

text \<open>A 200 response with a JSON object as body.\<close>

definition json_200 :: response where
  "json_200 =
     \<lparr>ok = True, http_status = 200, statusText = ''OK'',
      body_text = Inr ''{\"results\":[]}'',
      body_json = Inr (JObj [(''results'', JArr [])])\<rparr>"

text \<open>A 500 response with a plain-text body.\<close>

definition text_500 :: response where
  "text_500 =
     \<lparr>ok = False, http_status = 500, statusText = ''Internal Server Error'',
      body_text = Inr ''agent unreachable'',
      body_json = Inl (JsError ''SyntaxError'' ''Unexpected token a'')\<rparr>"

section \<open>Exchange records as the pages read them\<close>

text \<open>
  A record of the agent's admin API is a JSON object.  The model keeps the properties
  the pages read, each a string that may be absent (\<open>None\<close>: \<open>undefined\<close> or
  \<open>null\<close>).  \<open>exchange\<close> is also the shape of the nested \<open>cred_ex_record\<close> of an
  issue-credential 2.0 item; there \<open>rev_reg_id\<close> and \<open>cred_rev_id\<close> stand for
  \<open>by_format?.cred_issue?.indy?.rev_reg_id\<close> and \<open>...cred_rev_id\<close>.  \<open>raw_item\<close> is
  the \<open>_raw\<close> property that flattening adds.
\<close>

record exchange =
  cred_ex_id :: "string option"
  credential_exchange_id :: "string option"
  presentation_exchange_id :: "string option"
  pres_ex_id :: "string option"
  connection_id :: "string option"
  state :: "string option"
  credential_offer_state :: "string option"
  role :: "string option"
  thread_id :: "string option"
  created_at :: "string option"
  updated_at :: "string option"
  rev_reg_id :: "string option"
  cred_rev_id :: "string option"

record item = exchange +
  cred_ex_record :: "exchange option"

record row = item +
  raw_item :: "item option"

text \<open>What \<open>api.request\<close> resolves to: \<open>null\<close> (\<open>None\<close>) or an object.\<close>

record reply = exchange +
  results :: "item list option"

type_synonym outcome = "js_error + reply option"

text \<open>\<open>a || b\<close> on strings that may be absent: the empty string is falsy.\<close>

definition str_or :: "string option \<Rightarrow> string option \<Rightarrow> string option" where
  "str_or a b = (case a of Some (c # s) \<Rightarrow> a | _ \<Rightarrow> b)"

definition or_else :: "string option \<Rightarrow> string \<Rightarrow> string" where
  "or_else a d = (case a of Some (c # s) \<Rightarrow> c # s | _ \<Rightarrow> d)"

text \<open>\<open>rec?.field\<close>\<close>

definition opt_chain :: "'a option \<Rightarrow> ('a \<Rightarrow> string option) \<Rightarrow> string option" where
  "opt_chain r f = (case r of None \<Rightarrow> None | Some x \<Rightarrow> f x)"

text \<open>The em dash the pages show for a missing value, as its UTF-8 bytes.\<close>

definition em_dash :: string where
  "em_dash = [CHR 0xE2, CHR 0x80, CHR 0x94]"

text \<open>\<open>res?.results ?? []\<close>\<close>

definition results_of :: "reply option \<Rightarrow> item list" where
  "results_of res = (case res of None \<Rightarrow> [] | Some r \<Rightarrow> (case results r of None \<Rightarrow> [] | Some rs \<Rightarrow> rs))"

definition unflattened :: "item \<Rightarrow> row" where
  "unflattened i = item.extend i \<lparr>raw_item = None\<rparr>"

text \<open>
  The flattening of an issue-credential 2.0 list by Faber's \<open>CredentialsIssuedCard\<close>: an
  item with a nested \<open>cred_ex_record\<close> is replaced by that record's fields and \<open>_raw\<close>;
  the two revocation ids are \<open>null\<close> when falsy.
\<close>

definition flatten :: "item \<Rightarrow> row" where
  "flatten i =
     (case cred_ex_record i of
        None \<Rightarrow> unflattened i
      | Some r \<Rightarrow>
          \<lparr>cred_ex_id = cred_ex_id r, credential_exchange_id = None,
           presentation_exchange_id = None, pres_ex_id = None,
           connection_id = connection_id r, state = state r, credential_offer_state = None,
           role = role r, thread_id = thread_id r, created_at = created_at r,
           updated_at = updated_at r, rev_reg_id = str_or (rev_reg_id r) None,
           cred_rev_id = str_or (cred_rev_id r) None,
           cred_ex_record = None, raw_item = Some i\<rparr>)"

text \<open>Alice's \<open>CredentialsPage\<close> flattens likewise, without the revocation ids.\<close>

definition alice_flatten :: "item \<Rightarrow> row" where
  "alice_flatten i =
     (case cred_ex_record i of
        None \<Rightarrow> unflattened i
      | Some r \<Rightarrow> (flatten i)\<lparr>rev_reg_id := None, cred_rev_id := None\<rparr>)"

section \<open>The credentials pages: which actions a row offers\<close>

datatype action =
    AcceptCredentialOffer string
  | StoreCredential string
  | RefreshStored
  | SendPresentation string
  | VerifyPresentation string

text \<open>The row of the Alice page (Holder): the buttons of its Actions cell, by state.\<close>

definition alice_exchangeId :: "row \<Rightarrow> string" where
  "alice_exchangeId c =
     or_else (str_or (str_or (cred_ex_id c) (credential_exchange_id c))
                (opt_chain (cred_ex_record c) cred_ex_id)) em_dash"

definition alice_state :: "row \<Rightarrow> string" where
  "alice_state c =
     or_else (str_or (str_or (state c) (opt_chain (cred_ex_record c) state))
                (credential_offer_state c)) ''unknown''"

definition alice_credential_actions :: "row \<Rightarrow> action list" where
  "alice_credential_actions c =
     (let exchangeId = alice_exchangeId c; s = alice_state c in
      (if s = ''offer-received'' \<or> s = ''offer_received''
       then [AcceptCredentialOffer exchangeId] else [])
      @ (if s = ''credential-received'' \<or> s = ''credential_received''
         then [StoreCredential exchangeId] else [])
      @ (if s = ''done'' then [RefreshStored] else []))"

text \<open>
  The row of the Acme page.  Its \<open>exchangeId\<close> may be \<open>undefined\<close>; the handlers use it
  as a property key and in the request path, where it reads \<open>undefined\<close>.
\<close>

definition key_of :: "string option \<Rightarrow> string" where
  "key_of k = (case k of None \<Rightarrow> ''undefined'' | Some s \<Rightarrow> s)"

definition acme_exchangeId :: "row \<Rightarrow> string option" where
  "acme_exchangeId c = str_or (cred_ex_id c) (credential_exchange_id c)"

definition acme_state :: "row \<Rightarrow> string" where
  "acme_state c = or_else (state c) ''unknown''"

definition acme_credential_actions :: "row \<Rightarrow> action list" where
  "acme_credential_actions c =
     (let exchangeId = key_of (acme_exchangeId c); s = acme_state c in
      (if s = ''offer_received'' then [AcceptCredentialOffer exchangeId] else [])
      @ (if s = ''credential_received'' then [StoreCredential exchangeId] else []))"

text \<open>An exchange record with every property absent, to build examples from.\<close>

definition blank :: row where
  "blank =
     \<lparr>cred_ex_id = None, credential_exchange_id = None, presentation_exchange_id = None,
      pres_ex_id = None, connection_id = None, state = None, credential_offer_state = None,
      role = None, thread_id = None, created_at = None, updated_at = None,
      rev_reg_id = None, cred_rev_id = None, cred_ex_record = None, raw_item = None\<rparr>"

section \<open>Pages as event-driven state machines\<close>

text \<open>
  Each page is a component whose handlers run to completion on one event at a time: a
  click, a timer, or the settling of a promise the page awaits.  A handler reads the
  state of the latest render, and the updates it makes are committed before the next
  event is handled.  An \<open>async\<close> handler is split at its \<open>await\<close>: the part before it
  runs on the triggering event and leaves an entry in \<open>awaiting\<close>; the part after it runs
  when the environment settles that entry.

  \<open>toasts\<close> and \<open>requests\<close> are the observable effects: the \<open>pushToast\<close> calls and the
  \<open>api.request\<close> calls made so far, oldest first.
\<close>

record toast =
  title :: string
  message :: "string option"
  intent :: string

record call =
  verb :: string
  path :: string

record 'k page =
  toasts :: "toast list"
  requests :: "call list"
  awaiting :: "'k list"
  loading :: bool

definition remove_nth :: "nat \<Rightarrow> 'a list \<Rightarrow> 'a list" where
  "remove_nth k xs = take k xs @ drop (Suc k) xs"

definition error_toast :: "string \<Rightarrow> js_error \<Rightarrow> toast" where
  "error_toast t error = \<lparr>title = t, message = Some (error_message error), intent = ''error''\<rparr>"

definition success_toast :: "string \<Rightarrow> string \<Rightarrow> toast" where
  "success_toast t m = \<lparr>title = t, message = Some m, intent = ''success''\<rparr>"

definition GET :: "string \<Rightarrow> call" where
  "GET p = \<lparr>verb = ''GET'', path = p\<rparr>"

definition POST :: "string \<Rightarrow> call" where
  "POST p = \<lparr>verb = ''POST'', path = p\<rparr>"

text \<open>\<open>pushToast\<close>\<close>

definition push :: "toast \<Rightarrow> ('k, 'a) page_scheme \<Rightarrow> ('k, 'a) page_scheme" where
  "push t st = st\<lparr>toasts := toasts st @ [t]\<rparr>"

text \<open>
  How a block of statements ends: normally, or by throwing.  Either way the state
  reached is kept, since the updates made before a throw stay made.
\<close>

datatype 's completion = Normal 's | Throws js_error 's

text \<open>
  \<open>try { ... } catch (error) { ... } finally { ... }\<close>: the \<open>finally\<close> block always runs;
  an error thrown by the \<open>catch\<close> block itself propagates after it.
\<close>

definition try_catch_finally ::
  "'s completion \<Rightarrow> (js_error \<Rightarrow> 's \<Rightarrow> 's completion) \<Rightarrow> ('s \<Rightarrow> 's) \<Rightarrow> 's completion" where
  "try_catch_finally t c f =
     (case t of
        Normal s \<Rightarrow> Normal (f s)
      | Throws e s \<Rightarrow>
          (case c e s of
             Normal s' \<Rightarrow> Normal (f s')
           | Throws e' s' \<Rightarrow> Throws e' (f s')))"

text \<open>The state a block leaves behind, however it ended.\<close>

definition state_of :: "'s completion \<Rightarrow> 's" where
  "state_of c = (case c of Normal s \<Rightarrow> s | Throws e s \<Rightarrow> s)"

text \<open>
  \<open>await\<close> on a call that has settled: a rejection is thrown from the \<open>await\<close>, a reply
  lets the rest of the block run.
\<close>

definition await :: "outcome \<Rightarrow> 's \<Rightarrow> (reply option \<Rightarrow> 's) \<Rightarrow> 's completion" where
  "await out st k = (case out of Inl err \<Rightarrow> Throws err st | Inr res \<Rightarrow> Normal (k res))"

section \<open>\<open>useConnections\<close> (Alice): loading the connection list\<close>

datatype conn_cont = LoadConnections

record conn_view = "conn_cont page" +
  connections :: "item list"

definition useConnections_init :: conn_view where
  "useConnections_init =
     \<lparr>toasts = [], requests = [], awaiting = [], loading = False, connections = []\<rparr>"

text \<open>\<open>load\<close> up to its \<open>await\<close>.\<close>

definition useConnections_load :: "conn_view \<Rightarrow> conn_view" where
  "useConnections_load st =
     st\<lparr>loading := True,
        requests := requests st @ [GET ''/api/connections''],
        awaiting := awaiting st @ [LoadConnections]\<rparr>"

text \<open>\<open>load\<close> from its \<open>await\<close> on: the rest of \<open>try\<close>, or \<open>catch\<close>, then \<open>finally\<close>.\<close>

definition useConnections_loaded :: "outcome \<Rightarrow> conn_view \<Rightarrow> conn_view" where
  "useConnections_loaded out st =
     (case out of
        Inr res \<Rightarrow> st\<lparr>connections := results_of res\<rparr>
      | Inl error \<Rightarrow> st\<lparr>toasts := toasts st @ [error_toast ''Failed to load connections'' error]\<rparr>)
     \<lparr>loading := False\<rparr>"

datatype load_event = Load | Settled nat outcome

fun useConnections_step :: "load_event \<Rightarrow> conn_view \<Rightarrow> conn_view" where
  "useConnections_step Load st = useConnections_load st"
| "useConnections_step (Settled k out) st =
     (if k < length (awaiting st)
      then useConnections_loaded out (st\<lparr>awaiting := remove_nth k (awaiting st)\<rparr>)
      else st)"

definition useConnections_run :: "load_event list \<Rightarrow> conn_view \<Rightarrow> conn_view" where
  "useConnections_run es st = foldl (\<lambda>s e. useConnections_step e s) st es"

text \<open>
  The successful replies of a trace in their order of arrival, given that \<open>n\<close>
  requests are in flight at its start.  A reply addressed to no request in flight never
  happens and is skipped.  This function is not part of the program: it is the yardstick
  against which the list shown by \<open>useConnections\<close> is measured.
\<close>

fun arrived :: "load_event list \<Rightarrow> nat \<Rightarrow> reply option list" where
  "arrived [] n = []"
| "arrived (Load # es) n = arrived es (Suc n)"
| "arrived (Settled k out # es) n =
     (if k < n
      then (case out of Inr res \<Rightarrow> [res] | Inl e \<Rightarrow> []) @ arrived es (n - 1)
      else arrived es n)"

section \<open>\<open>CredentialsIssuedCard\<close> (Faber): loading the issued credentials\<close>

text \<open>
  \<open>load\<close> is re-created when \<open>fetchedOnce\<close> changes; a call in flight keeps the value
  of \<open>fetchedOnce\<close> it was called with, which is what its \<open>catch\<close> block reads.
\<close>

datatype issued_cont = LoadIssued bool

record issued_card = "issued_cont page" +
  exchanges :: "row list"
  loadError :: "string option"
  fetchedOnce :: bool

definition CredentialsIssuedCard_init :: issued_card where
  "CredentialsIssuedCard_init =
     \<lparr>toasts = [], requests = [], awaiting = [], loading = False,
      exchanges = [], loadError = None, fetchedOnce = False\<rparr>"

definition issued_load :: "issued_card \<Rightarrow> issued_card" where
  "issued_load st =
     (if loading st then st
      else st\<lparr>loading := True, loadError := None,
              requests := requests st @ [GET ''/api/credential-exchanges''],
              awaiting := awaiting st @ [LoadIssued (fetchedOnce st)]\<rparr>)"

fun issued_loaded :: "issued_cont \<Rightarrow> outcome \<Rightarrow> issued_card \<Rightarrow> issued_card" where
  "issued_loaded (LoadIssued fetchedOnce_seen) out st =
     (case out of
        Inr res \<Rightarrow> st\<lparr>exchanges := map flatten (results_of res), fetchedOnce := True\<rparr>
      | Inl error \<Rightarrow>
          st\<lparr>loadError :=
                Some (if error_message error \<noteq> [] then error_message error
                      else ''Failed to load credential exchanges''),
              exchanges := (if \<not> fetchedOnce_seen then [] else exchanges st)\<rparr>)
     \<lparr>loading := False\<rparr>"

fun issued_step :: "load_event \<Rightarrow> issued_card \<Rightarrow> issued_card" where
  "issued_step Load st = issued_load st"
| "issued_step (Settled k out) st =
     (if k < length (awaiting st)
      then issued_loaded (awaiting st ! k) out (st\<lparr>awaiting := remove_nth k (awaiting st)\<rparr>)
      else st)"

definition issued_run :: "load_event list \<Rightarrow> issued_card \<Rightarrow> issued_card" where
  "issued_run es st = foldl (\<lambda>s e. issued_step e s) st es"

text \<open>
  What holds of every state the card can reach: at most one load is in flight, and it was called with the current value of
  \<open>fetchedOnce\<close>: \<open>load\<close> returns at once while \<open>loading\<close> is set.
\<close>

definition issued_inv :: "issued_card \<Rightarrow> bool" where
  "issued_inv st \<longleftrightarrow>
     (awaiting st = [] \<or> (awaiting st = [LoadIssued (fetchedOnce st)] \<and> loading st))"

text \<open>Two replies to tell apart, and a failure.\<close>

definition conn_item :: "string \<Rightarrow> item" where
  "conn_item c = item.truncate (blank\<lparr>connection_id := Some c, state := Some ''active''\<rparr>)"

definition reply_with :: "item list \<Rightarrow> reply option" where
  "reply_with rs =
     Some \<lparr>cred_ex_id = None, credential_exchange_id = None, presentation_exchange_id = None,
      pres_ex_id = None, connection_id = None, state = None, credential_offer_state = None,
      role = None, thread_id = None, created_at = None, updated_at = None,
      rev_reg_id = None, cred_rev_id = None, results = Some rs\<rparr>"

definition gateway_timeout :: js_error where
  "gateway_timeout = JsError ''Error'' ''Gateway Timeout''"

section \<open>\<open>CredentialsPage\<close> (Alice and Acme): accepting an offer, storing a credential\<close>

text \<open>
  The two controllers have the same page but for the names and flags of its loaders and
  one toast text.  \<open>acceptingOffer\<close> and \<open>storing\<close> are the objects whose keys are the
  exchange ids with a call in flight.
\<close>

datatype controller = Alice | Acme

datatype cred_cont = LoadExchanges | LoadStored | AcceptOffer string | StoreCred string

record credentials_page = "cred_cont page" +
  credentialExchanges :: "row list"
  storedCredentials :: "item list"
  acceptingOffer :: "string set"
  storing :: "string set"
  loadingExchanges :: bool
  loadingStored :: bool


definition loadExchanges :: "controller \<Rightarrow> credentials_page \<Rightarrow> credentials_page" where
  "loadExchanges c st =
     (case c of Alice \<Rightarrow> st\<lparr>loadingExchanges := True\<rparr> | Acme \<Rightarrow> st)
     \<lparr>requests := requests st @ [GET ''/api/credential-exchanges''],
      awaiting := awaiting st @ [LoadExchanges]\<rparr>"

definition loadExchanges_settled ::
  "controller \<Rightarrow> outcome \<Rightarrow> credentials_page \<Rightarrow> credentials_page completion" where
  "loadExchanges_settled c out st =
     try_catch_finally
       (await out st (\<lambda>res.
          st\<lparr>credentialExchanges :=
                map (case c of Alice \<Rightarrow> alice_flatten | Acme \<Rightarrow> unflattened) (results_of res)\<rparr>))
       (\<lambda>err s. Normal (push (error_toast ''Failed to load credential exchanges'' err) s))
       (\<lambda>s. case c of Alice \<Rightarrow> s\<lparr>loadingExchanges := False\<rparr> | Acme \<Rightarrow> s)"

definition loadStored :: "controller \<Rightarrow> credentials_page \<Rightarrow> credentials_page" where
  "loadStored c st =
     (case c of Alice \<Rightarrow> st\<lparr>loadingStored := True\<rparr> | Acme \<Rightarrow> st\<lparr>loading := True\<rparr>)
     \<lparr>requests := requests st @ [GET ''/api/credentials''],
      awaiting := awaiting st @ [LoadStored]\<rparr>"

definition loadStored_settled ::
  "controller \<Rightarrow> outcome \<Rightarrow> credentials_page \<Rightarrow> credentials_page completion" where
  "loadStored_settled c out st =
     try_catch_finally
       (await out st (\<lambda>res. st\<lparr>storedCredentials := results_of res\<rparr>))
       (\<lambda>err s. Normal (push (error_toast ''Failed to load stored credentials'' err) s))
       (\<lambda>s. case c of Alice \<Rightarrow> s\<lparr>loadingStored := False\<rparr> | Acme \<Rightarrow> s\<lparr>loading := False\<rparr>)"




definition acceptCredentialOffer_settled ::
  "controller \<Rightarrow> string \<Rightarrow> outcome \<Rightarrow> credentials_page \<Rightarrow> credentials_page completion" where
  "acceptCredentialOffer_settled c credExId out st =
     try_catch_finally
       (await out st (\<lambda>res.
          loadExchanges c
            (push (success_toast ''Credential request sent''
                     (case c of Alice \<Rightarrow> ''Waiting for Faber to issue credential...''
                              | Acme \<Rightarrow> ''Waiting for Issuer to issue credential...'')) st)))
       (\<lambda>err s. Normal (push (error_toast ''Failed to accept credential offer'' err) s))
       (\<lambda>s. s\<lparr>acceptingOffer := acceptingOffer s - {credExId}\<rparr>)"


definition storeCredential_settled ::
  "controller \<Rightarrow> string \<Rightarrow> outcome \<Rightarrow> credentials_page \<Rightarrow> credentials_page completion" where
  "storeCredential_settled c credExId out st =
     try_catch_finally
       (await out st (\<lambda>res.
          loadStored c (loadExchanges c
            (push (success_toast ''Credential stored''
                     ''Credential has been successfully stored in your wallet.'') st))))
       (\<lambda>err s. Normal (push (error_toast ''Failed to store credential'' err) s))
       (\<lambda>s. s\<lparr>storing := storing s - {credExId}\<rparr>)"






section \<open>\<open>sendCredential\<close> (Faber): the background credential send\<close>



text \<open>
  The id of a pending send is \<open>cred-<Date.now()>-<random suffix>\<close>; the model keeps the
  two parts.
\<close>

datatype pending_id = PendingId nat string

record send_base =
  connectionId :: string
  credDefId :: string
  comment :: string

text \<open>
  What the handler reads from the form when it is clicked: \<open>issueForm\<close>, the
  \<open>issuerDid\<close> of \<open>schemaMeta\<close> (\<open>None\<close> when \<open>schemaMeta\<close> is \<open>null\<close>) and
  \<open>attributeValues\<close>.
\<close>

record send_form = send_base +
  issuerDid :: "string option"
  attributeValues :: "(string \<times> string option) list"

record pending_item = send_base +
  pendingId :: pending_id
  attributes :: "(string \<times> string) list"
  startTime :: nat
  status :: string
  credExId :: "string option"
  error :: "string option"
  isTimeout :: "bool option"
  durationSec :: "nat option"

text \<open>
  A send in flight: the fetch has not settled and its abort timer is armed.  The entry
  keeps what the promise handlers close over, \<open>pendingId\<close> and \<open>startTime\<close>; the timer
  was armed in the same handler run, so it is due \<open>SEND_TIMEOUT_MS\<close> after \<open>startTime\<close>.
\<close>

datatype send_cont = SendCont pending_id nat

record issuer = "send_cont page" +
  now :: nat
  sending :: bool
  pendingCredentials :: "pending_item list"













datatype send_event =
    Tick nat
  | ClickSend send_form string
  | Replied pending_id "reply option"
  | Failed pending_id js_error
  | TimerFired pending_id
  | Dismiss pending_id
  | ClearCompletedFailed








section \<open>\<open>ProofsPage\<close> (Acme): loading, manual and automatic verification\<close>

text \<open>
  What the page awaits: the reply to \<open>load\<close>; the reply to the verify call of the
  scan, with the id and the records of the snapshot still to visit; the reply to a
  manual verify call.
\<close>

datatype proofs_cont =
    LoadProofs
  | AutoVerify string "item list"
  | ManualVerify string

record proofs_page = "proofs_cont page" +
  proofs :: "item list"
  verifying :: "string set"
  autoVerified :: "string set"
  reload_timers :: nat

text \<open>The hooks' initial values: \<open>useState([])\<close>, \<open>useState({})\<close>, \<open>useRef(new Set())\<close>.\<close>

definition ProofsPage_init :: proofs_page where
  "ProofsPage_init =
     \<lparr>toasts = [], requests = [], awaiting = [], loading = False,
      proofs = [], verifying = {}, autoVerified = {}, reload_timers = 0\<rparr>"

definition verify_path :: "string \<Rightarrow> string" where
  "verify_path exchangeId = ''/api/proofs/'' @ exchangeId @ ''/verify''"

text \<open>\<open>load\<close> up to its \<open>await\<close>.\<close>

definition ProofsPage_load :: "proofs_page \<Rightarrow> proofs_page" where
  "ProofsPage_load st =
     st\<lparr>requests := requests st @ [GET ''/api/proofs''],
        awaiting := awaiting st @ [LoadProofs]\<rparr>"

text \<open>
  The test of the scan on one record: the id to verify when the record is in state
  \<open>presentation_received\<close> or \<open>presentation-received\<close>, has a truthy id and the id is not
  in \<open>autoVerifiedRef.current\<close>.
\<close>

definition proof_exchangeId :: "item \<Rightarrow> string option" where
  "proof_exchangeId proof = str_or (presentation_exchange_id proof) (pres_ex_id proof)"

definition isPresentationReceived :: "item \<Rightarrow> bool" where
  "isPresentationReceived proof =
     (let s = or_else (state proof) ''unknown''
      in s = ''presentation_received'' \<or> s = ''presentation-received'')"

definition to_verify :: "item \<Rightarrow> proofs_page \<Rightarrow> string option" where
  "to_verify proof st =
     (case proof_exchangeId proof of
        Some (c # s) \<Rightarrow>
          if isPresentationReceived proof \<and> c # s \<notin> autoVerified st then Some (c # s) else None
      | _ \<Rightarrow> None)"

text \<open>
  \<open>autoVerifyPresentations\<close>: the \<open>for\<close> loop over the snapshot, up to the first
  \<open>await\<close>.  Before the verify call goes out the id is put into \<open>verifying\<close> and into
  \<open>autoVerifiedRef.current\<close>.
\<close>

fun autoVerifyPresentations :: "item list \<Rightarrow> proofs_page \<Rightarrow> proofs_page" where
  "autoVerifyPresentations [] st = st"
| "autoVerifyPresentations (proof # rest) st =
     (case to_verify proof st of
        None \<Rightarrow> autoVerifyPresentations rest st
      | Some exchangeId \<Rightarrow>
          st\<lparr>verifying := insert exchangeId (verifying st),
             autoVerified := insert exchangeId (autoVerified st),
             requests := requests st @ [POST (verify_path exchangeId)],
             awaiting := awaiting st @ [AutoVerify exchangeId rest]\<rparr>)"

text \<open>The effect on \<open>[proofs]\<close>: it scans only a non-empty list.\<close>

definition proofs_effect :: "proofs_page \<Rightarrow> proofs_page" where
  "proofs_effect st = (if length (proofs st) > 0 then autoVerifyPresentations (proofs st) st else st)"

text \<open>\<open>load\<close> from its \<open>await\<close> on, and the effect that \<open>setProofs\<close> triggers.\<close>

definition ProofsPage_loaded :: "outcome \<Rightarrow> proofs_page \<Rightarrow> proofs_page" where
  "ProofsPage_loaded out st =
     (case out of
        Inr res \<Rightarrow> proofs_effect (st\<lparr>proofs := results_of res\<rparr>)
      | Inl err \<Rightarrow> push (error_toast ''Failed to load proofs'' err) st)"

text \<open>
  One iteration of the scan from its \<open>await\<close> on: the rest of the \<open>try\<close> block (a toast
  and a reload one second later), the \<open>catch\<close> block (a toast, and the id leaves
  \<open>autoVerifiedRef.current\<close>), the \<open>finally\<close> block (the id leaves \<open>verifying\<close>).
\<close>

definition auto_try :: "string \<Rightarrow> outcome \<Rightarrow> proofs_page \<Rightarrow> proofs_page completion" where
  "auto_try exchangeId out st =
     (case out of
        Inl err \<Rightarrow> Throws err st
      | Inr res \<Rightarrow>
          Normal (push (success_toast ''Presentation auto-verified''
                          (''Proof exchange '' @ take 8 exchangeId
                           @ ''... has been automatically verified.'')) st
                  \<lparr>reload_timers := reload_timers st + 1\<rparr>))"

definition auto_catch :: "string \<Rightarrow> js_error \<Rightarrow> proofs_page \<Rightarrow> proofs_page completion" where
  "auto_catch exchangeId err st =
     Normal (push \<lparr>title = ''Auto-verification failed'',
                   message = Some (if error_message err \<noteq> [] then error_message err
                                   else ''Failed to automatically verify presentation''),
                   intent = ''error''\<rparr> st
             \<lparr>autoVerified := autoVerified st - {exchangeId}\<rparr>)"

definition verify_finally :: "string \<Rightarrow> proofs_page \<Rightarrow> proofs_page" where
  "verify_finally exchangeId st = st\<lparr>verifying := verifying st - {exchangeId}\<rparr>"

definition auto_settled :: "string \<Rightarrow> outcome \<Rightarrow> proofs_page \<Rightarrow> proofs_page completion" where
  "auto_settled exchangeId out st =
     try_catch_finally (auto_try exchangeId out st) (auto_catch exchangeId)
       (verify_finally exchangeId)"

text \<open>
  The loop goes on with the next record when the iteration ended normally; a throw
  would end the scan.
\<close>

definition auto_resume :: "string \<Rightarrow> item list \<Rightarrow> outcome \<Rightarrow> proofs_page \<Rightarrow> proofs_page" where
  "auto_resume exchangeId rest out st =
     (case auto_settled exchangeId out st of
        Normal st' \<Rightarrow> autoVerifyPresentations rest st'
      | Throws e st' \<Rightarrow> st')"

text \<open>\<open>verifyPresentation\<close>, the handler of the Verify button: up to its \<open>await\<close>.\<close>

definition verifyPresentation :: "string \<Rightarrow> proofs_page \<Rightarrow> proofs_page" where
  "verifyPresentation presentationExchangeId st =
     (if presentationExchangeId \<in> verifying st then st
      else st\<lparr>verifying := insert presentationExchangeId (verifying st),
              requests := requests st @ [POST (verify_path presentationExchangeId)],
              awaiting := awaiting st @ [ManualVerify presentationExchangeId]\<rparr>)"

text \<open>\<open>verifyPresentation\<close> from its \<open>await\<close> on.\<close>

definition manual_settled :: "string \<Rightarrow> outcome \<Rightarrow> proofs_page \<Rightarrow> proofs_page completion" where
  "manual_settled exchangeId out st =
     try_catch_finally
       (case out of
          Inl err \<Rightarrow> Throws err st
        | Inr res \<Rightarrow>
            Normal (ProofsPage_load
                      (push (success_toast ''Verification request sent''
                               ''Verifying Presentation...'') st)))
       (\<lambda>err s. Normal (push (error_toast ''Verification failed'' err) s))
       (verify_finally exchangeId)"

datatype proofs_event =
    Refresh
  | ReloadTimer
  | ClickVerify "string option"
  | Answered nat outcome

fun proofs_settled :: "proofs_cont \<Rightarrow> outcome \<Rightarrow> proofs_page \<Rightarrow> proofs_page" where
  "proofs_settled LoadProofs out st = ProofsPage_loaded out st"
| "proofs_settled (AutoVerify exchangeId rest) out st = auto_resume exchangeId rest out st"
| "proofs_settled (ManualVerify exchangeId) out st = state_of (manual_settled exchangeId out st)"

text \<open>
  \<open>Refresh\<close> is a call of \<open>load\<close> by the mount effect or the Refresh button,
  \<open>ReloadTimer\<close> the firing of a timer set after an automatic verification,
  \<open>ClickVerify\<close> a click on the Verify button of a row with that \<open>exchangeId\<close>, and
  \<open>Answered k out\<close> the settling of the \<open>k\<close>-th call in flight.
\<close>

fun proofs_step :: "proofs_event \<Rightarrow> proofs_page \<Rightarrow> proofs_page" where
  "proofs_step Refresh st = ProofsPage_load st"
| "proofs_step ReloadTimer st =
     (if reload_timers st > 0 then ProofsPage_load (st\<lparr>reload_timers := reload_timers st - 1\<rparr>)
      else st)"
| "proofs_step (ClickVerify exchangeId) st = verifyPresentation (key_of exchangeId) st"
| "proofs_step (Answered k out) st =
     (if k < length (awaiting st)
      then proofs_settled (awaiting st ! k) out (st\<lparr>awaiting := remove_nth k (awaiting st)\<rparr>)
      else st)"

definition proofs_run :: "proofs_event list \<Rightarrow> proofs_page \<Rightarrow> proofs_page" where
  "proofs_run es st = foldl (\<lambda>s e. proofs_step e s) st es"

text \<open>
  Leaving the page and coming back mounts a new instance: its hooks start from their
  initial values, and its mount effect calls \<open>load\<close>.  The toasts and the calls already
  made stay what they were.  Calls that the old instance awaits settle on the old
  instance; the model drops them.
\<close>

definition ProofsPage_remount :: "proofs_page \<Rightarrow> proofs_page" where
  "ProofsPage_remount st =
     ProofsPage_load (ProofsPage_init\<lparr>toasts := toasts st, requests := requests st\<rparr>)"

datatype app_event = OnPage proofs_event | LeaveAndReturn

fun app_step :: "app_event \<Rightarrow> proofs_page \<Rightarrow> proofs_page" where
  "app_step (OnPage e) st = proofs_step e st"
| "app_step LeaveAndReturn st = ProofsPage_remount st"

definition app_run :: "app_event list \<Rightarrow> proofs_page \<Rightarrow> proofs_page" where
  "app_run es st = foldl (\<lambda>s e. app_step e s) st es"

text \<open>A presentation exchange in a given state, and a snapshot holding it.\<close>

definition pres_item :: "string \<Rightarrow> string \<Rightarrow> item" where
  "pres_item i s = item.truncate (blank\<lparr>pres_ex_id := Some i, state := Some s\<rparr>)"

definition no_reply :: outcome where
  "no_reply = Inr None"

text \<open>The ids whose verify call, issued by the scan, is in flight.\<close>

fun auto_ids :: "proofs_cont list \<Rightarrow> string list" where
  "auto_ids [] = []"
| "auto_ids (AutoVerify x r # cs) = x # auto_ids cs"
| "auto_ids (c # cs) = auto_ids cs"

text \<open>
  What holds of every state a mounted page can reach: the scan has at most one call in
  flight per id, and each such id is in \<open>autoVerifiedRef.current\<close>.
\<close>

definition proofs_inv :: "proofs_page \<Rightarrow> bool" where
  "proofs_inv st \<longleftrightarrow>
     distinct (auto_ids (awaiting st)) \<and> set (auto_ids (awaiting st)) \<subseteq> autoVerified st"

text \<open>Snapshots with one and with two presentations received.\<close>

definition px1_received :: "reply option" where
  "px1_received = reply_with [pres_item ''px-1'' ''presentation-received'']"

definition px1_px2_received :: "reply option" where
  "px1_px2_received =
     reply_with [pres_item ''px-1'' ''presentation_received'',
                 pres_item ''px-2'' ''presentation-received'']"

chapter \<open>Properties\<close>

section \<open>\<open>useApi.request\<close>\<close>

lemma request_finish_pending: "pending (snd (request_finish t st)) = False"
  by (simp add: request_finish_def Let_def split: sum.split)

lemma request_finish_Inr: "request_finish (Inr v) st = (Resolved v, st\<lparr>pending := False, lastError := None\<rparr>)"
  by (simp add: request_finish_def Let_def)

lemma request_finish_Inl:
  "request_finish (Inl e) st = (Rejected e, st\<lparr>pending := False, lastError := Some e\<rparr>)"
  by (simp add: request_finish_def Let_def)

text \<open>The two variants differ only in the message of a non-OK response.\<close>

lemma acme_request_try_ok: "ok r \<Longrightarrow> acme_request_try str (Inr r) = request_try (Inr r)"
  by (simp add: acme_request_try_def request_try_def)

lemma acme_request_try_fetch_failed: "acme_request_try str (Inl e) = request_try (Inl e)"
  by (simp add: acme_request_try_def request_try_def)

lemma request_try_not_ok: "\<not> ok r \<Longrightarrow> \<exists>e. request_try (Inr r) = Inl e"
  by (simp add: request_try_def split: sum.split)

lemma acme_request_try_not_ok: "\<not> ok r \<Longrightarrow> \<exists>e. acme_request_try str (Inr r) = Inl e"
  by (simp add: acme_request_try_def split: sum.split)

text \<open>
  C10 (as stated, refuted): an OK response whose body is not JSON is neither resolved to
  \<open>null\<close> nor to a parsed body; the call rejects with the parse error.
\<close>

theorem request_html_200_rejects:
  "ok html_200 \<and> http_status html_200 \<noteq> 204 \<and> body_text html_200 \<noteq> Inr []
   \<and> request (Inr html_200) api_idle
       = (Rejected (JsError ''SyntaxError'' ''Unexpected token <''),
          \<lparr>pending = False, lastError = Some (JsError ''SyntaxError'' ''Unexpected token <'')\<rparr>)"
  by (simp add: html_200_def api_idle_def request_def request_try_def request_finish_def)

text \<open>
  C10 (amended).  Every call of \<open>request\<close> whose \<open>fetch\<close> has settled settles itself,
  with \<open>pending\<close> reset to \<open>False\<close>.  For an OK response it resolves to \<open>null\<close> when
  the status is 204 or the body is empty; otherwise it resolves to the value
  \<open>JSON.parse\<close> returns for the body when the body parses, and rejects with the parse
  error, recorded in \<open>lastError\<close>, when it does not.  It rejects, with the error
  recorded in \<open>lastError\<close>, for every non-OK response and when \<open>fetch\<close> or
  \<open>response.text()\<close> fails.  The Acme variant behaves the same.
\<close>

theorem request_outcomes:
  "pending (snd (request f st)) = False \<and> pending (snd (acme_request str f st)) = False
   \<and> (\<forall>r. f = Inr r \<and> ok r \<and> (http_status r = 204 \<or> body_text r = Inr []) \<longrightarrow>
          request f st = (Resolved JNull, st\<lparr>pending := False, lastError := None\<rparr>)
          \<and> acme_request str f st = request f st)
   \<and> (\<forall>r b v. f = Inr r \<and> ok r \<and> http_status r \<noteq> 204 \<and> body_text r = Inr b \<and> b \<noteq> []
          \<and> body_json r = Inr v \<longrightarrow>
          request f st = (Resolved v, st\<lparr>pending := False, lastError := None\<rparr>)
          \<and> acme_request str f st = request f st)
   \<and> (\<forall>r b e. f = Inr r \<and> ok r \<and> http_status r \<noteq> 204 \<and> body_text r = Inr b \<and> b \<noteq> []
          \<and> body_json r = Inl e \<longrightarrow>
          request f st = (Rejected e, st\<lparr>pending := False, lastError := Some e\<rparr>)
          \<and> acme_request str f st = request f st)
   \<and> (\<forall>r e. f = Inr r \<and> ok r \<and> http_status r \<noteq> 204 \<and> body_text r = Inl e \<longrightarrow>
          request f st = (Rejected e, st\<lparr>pending := False, lastError := Some e\<rparr>)
          \<and> acme_request str f st = request f st)
   \<and> (\<forall>r. f = Inr r \<and> \<not> ok r \<longrightarrow>
          (\<exists>e. request f st = (Rejected e, st\<lparr>pending := False, lastError := Some e\<rparr>))
          \<and> (\<exists>e. acme_request str f st = (Rejected e, st\<lparr>pending := False, lastError := Some e\<rparr>)))
   \<and> (\<forall>e. f = Inl e \<longrightarrow>
          request f st = (Rejected e, st\<lparr>pending := False, lastError := Some e\<rparr>)
          \<and> acme_request str f st = request f st)"
proof -
  have p: "pending (snd (request f st)) = False \<and> pending (snd (acme_request str f st)) = False"
    by (simp add: request_def acme_request_def request_finish_pending)
  have agree: "acme_request str f st = request f st" if "f = Inr r" "ok r" for r
    using that by (simp add: acme_request_def request_def acme_request_try_ok)
  have null: "request f st = (Resolved JNull, st\<lparr>pending := False, lastError := None\<rparr>)"
    if "f = Inr r" "ok r" "http_status r = 204 \<or> body_text r = Inr []" for r
    using that by (auto simp: request_def request_try_def request_finish_Inr)
  have parsed: "request f st = (Resolved v, st\<lparr>pending := False, lastError := None\<rparr>)"
    if "f = Inr r" "ok r" "http_status r \<noteq> 204" "body_text r = Inr b" "b \<noteq> []" "body_json r = Inr v"
    for r b v
    using that by (simp add: request_def request_try_def request_finish_Inr)
  have unparsed: "request f st = (Rejected e, st\<lparr>pending := False, lastError := Some e\<rparr>)"
    if "f = Inr r" "ok r" "http_status r \<noteq> 204" "body_text r = Inr b" "b \<noteq> []" "body_json r = Inl e"
    for r b e
    using that by (simp add: request_def request_try_def request_finish_Inl)
  have unread: "request f st = (Rejected e, st\<lparr>pending := False, lastError := Some e\<rparr>)"
    if "f = Inr r" "ok r" "http_status r \<noteq> 204" "body_text r = Inl e" for r e
    using that by (simp add: request_def request_try_def request_finish_Inl)
  have bad: "\<exists>e. request f st = (Rejected e, st\<lparr>pending := False, lastError := Some e\<rparr>)"
    if "f = Inr r" "\<not> ok r" for r
    using that request_try_not_ok [of r] by (auto simp: request_def request_finish_Inl)
  have bad_acme:
    "\<exists>e. acme_request str f st = (Rejected e, st\<lparr>pending := False, lastError := Some e\<rparr>)"
    if "f = Inr r" "\<not> ok r" for r
    using that acme_request_try_not_ok [of r str] by (auto simp: acme_request_def request_finish_Inl)
  have failed: "request f st = (Rejected e, st\<lparr>pending := False, lastError := Some e\<rparr>)
      \<and> acme_request str f st = request f st" if "f = Inl e" for e
    using that
    by (simp add: request_def acme_request_def acme_request_try_fetch_failed request_try_def
        request_finish_Inl)
  show ?thesis
    using p agree null parsed unparsed unread bad bad_acme failed by blast
qed

theorem request_outcomes_witness:
  "request (Inr json_200) api_idle
     = (Resolved (JObj [(''results'', JArr [])]), \<lparr>pending = False, lastError = None\<rparr>)
   \<and> acme_request (\<lambda>v. ''[object Object]'') (Inr json_200) api_idle = request (Inr json_200) api_idle
   \<and> (\<exists>e. request (Inr text_500) api_idle = (Rejected e, \<lparr>pending = False, lastError = Some e\<rparr>))
   \<and> (\<exists>e. acme_request (\<lambda>v. ''[object Object]'') (Inr text_500) api_idle
            = (Rejected e, \<lparr>pending = False, lastError = Some e\<rparr>))"
proof -
  have a: "ok json_200 \<and> http_status json_200 \<noteq> 204 \<and> body_text json_200 = Inr ''{\"results\":[]}''
      \<and> ''{\"results\":[]}'' \<noteq> [] \<and> body_json json_200 = Inr (JObj [(''results'', JArr [])])"
    by (simp add: json_200_def)
  have b: "\<not> ok text_500" by (simp add: text_500_def)
  from a request_outcomes [of "Inr json_200" api_idle "\<lambda>v. ''[object Object]''"]
  have 1: "request (Inr json_200) api_idle
      = (Resolved (JObj [(''results'', JArr [])]), api_idle\<lparr>pending := False, lastError := None\<rparr>)
      \<and> acme_request (\<lambda>v. ''[object Object]'') (Inr json_200) api_idle = request (Inr json_200) api_idle"
    by blast
  from b request_outcomes [of "Inr text_500" api_idle "\<lambda>v. ''[object Object]''"]
  have 2: "(\<exists>e. request (Inr text_500) api_idle
              = (Rejected e, api_idle\<lparr>pending := False, lastError := Some e\<rparr>))
      \<and> (\<exists>e. acme_request (\<lambda>v. ''[object Object]'') (Inr text_500) api_idle
              = (Rejected e, api_idle\<lparr>pending := False, lastError := Some e\<rparr>))"
    by blast
  from 1 2 show ?thesis by (simp add: api_idle_def)
qed

section \<open>State tags on the credentials pages\<close>

lemma alice_state_set [simp]: "alice_state (c\<lparr>state := Some (x # s)\<rparr>) = x # s"
  by (simp add: alice_state_def or_else_def str_or_def)

lemma alice_exchangeId_state [simp]: "alice_exchangeId (c\<lparr>state := t\<rparr>) = alice_exchangeId c"
  by (simp add: alice_exchangeId_def)

text \<open>
  The Alice page offers the same actions for the hyphenated and the underscored spelling
  of a state tag.
\<close>

lemma alice_credential_actions_synonyms:
  "alice_credential_actions (c\<lparr>state := Some ''offer-received''\<rparr>)
     = alice_credential_actions (c\<lparr>state := Some ''offer_received''\<rparr>)
   \<and> alice_credential_actions (c\<lparr>state := Some ''credential-received''\<rparr>)
     = alice_credential_actions (c\<lparr>state := Some ''credential_received''\<rparr>)"
  by (simp add: alice_credential_actions_def Let_def)

text \<open>
  C3 (the Acme page does not do as the claim says).  On the Acme credentials page the
  record \<open>cx-1\<close> is offered \<open>Accept Credential\<close> in state \<open>offer_received\<close> and nothing in
  state \<open>offer-received\<close>; likewise \<open>Store Credential\<close> only for \<open>credential_received\<close>.
\<close>

theorem acme_credential_actions_hyphen:
  "acme_credential_actions (blank\<lparr>cred_ex_id := Some ''cx-1'', state := Some ''offer_received''\<rparr>)
     = [AcceptCredentialOffer ''cx-1'']
   \<and> acme_credential_actions (blank\<lparr>cred_ex_id := Some ''cx-1'', state := Some ''offer-received''\<rparr>)
     = []
   \<and> acme_credential_actions (blank\<lparr>cred_ex_id := Some ''cx-1'', state := Some ''credential_received''\<rparr>)
     = [StoreCredential ''cx-1'']
   \<and> acme_credential_actions (blank\<lparr>cred_ex_id := Some ''cx-1'', state := Some ''credential-received''\<rparr>)
     = []"
  by (simp add: acme_credential_actions_def acme_exchangeId_def acme_state_def blank_def
      key_of_def str_or_def or_else_def Let_def)

section \<open>Racing refreshes of \<open>useConnections\<close>\<close>

lemma useConnections_run_snoc:
  "useConnections_run (es @ [e]) st = useConnections_step e (useConnections_run es st)"
  by (simp add: useConnections_run_def)

lemma useConnections_loaded_Inr [simp]:
  "connections (useConnections_loaded (Inr res) st) = results_of res"
  by (simp add: useConnections_loaded_def)

lemma useConnections_loaded_Inl [simp]:
  "connections (useConnections_loaded (Inl e) st) = connections st"
  by (simp add: useConnections_loaded_def)

lemma useConnections_run_Cons:
  "useConnections_run (e # es) st = useConnections_run es (useConnections_step e st)"
  by (simp add: useConnections_run_def)

text \<open>
  From any state, the list shown after a trace is the successful reply that arrived last
  in it, and the list shown before when none arrived.
\<close>

lemma useConnections_shows_last:
  "connections (useConnections_run es st)
     = (case arrived es (length (awaiting st)) of
          [] \<Rightarrow> connections st
        | r # rs \<Rightarrow> results_of (last (r # rs)))"
proof (induction es arbitrary: st)
  case Nil
  then show ?case by (simp add: useConnections_run_def)
next
  case (Cons e es)
  show ?case
  proof (cases e)
    case Load
    have "length (awaiting (useConnections_load st)) = Suc (length (awaiting st))"
      and "connections (useConnections_load st) = connections st"
      by (simp_all add: useConnections_load_def)
    then show ?thesis
      using Cons.IH [of "useConnections_load st"] Load
      by (simp add: useConnections_run_Cons split: list.split)
  next
    case (Settled k out)
    show ?thesis
    proof (cases "k < length (awaiting st)")
      case False
      then show ?thesis
        using Cons.IH [of st] Settled by (simp add: useConnections_run_Cons)
    next
      case True
      let ?st' = "useConnections_loaded out (st\<lparr>awaiting := remove_nth k (awaiting st)\<rparr>)"
      have len: "length (awaiting ?st') = length (awaiting st) - 1"
        using True by (cases out) (auto simp: useConnections_loaded_def remove_nth_def)
      show ?thesis
      proof (cases out)
        case (Inl err)
        then have "connections ?st' = connections st" by simp
        then show ?thesis
          using Cons.IH [of ?st'] Settled True Inl len
          by (simp add: useConnections_run_Cons split: list.split)
      next
        case (Inr res)
        then have "connections ?st' = results_of res" by simp
        then show ?thesis
          using Cons.IH [of ?st'] Settled True Inr len
          by (simp add: useConnections_run_Cons split: list.split)
      qed
    qed
  qed
qed

text \<open>
  C4 (as stated, refuted).  Two refreshes are issued; the reply to the second arrives
  first, then the reply to the first.  The list ends up holding the reply to the
  first-issued refresh.
\<close>

theorem useConnections_late_reply_overwrites:
  "connections
     (useConnections_run
        [Load, Load,
         Settled 1 (Inr (reply_with [conn_item ''second''])),
         Settled 0 (Inr (reply_with [conn_item ''first'']))]
        useConnections_init)
   = [conn_item ''first'']"
  by (simp add: useConnections_run_def useConnections_init_def useConnections_load_def
      useConnections_loaded_def remove_nth_def results_of_def reply_with_def)

section \<open>A failed load of the issued credentials\<close>

lemma issued_run_snoc: "issued_run (es @ [e]) st = issued_step e (issued_run es st)"
  by (simp add: issued_run_def)

lemma issued_run_append: "issued_run (es @ es') st = issued_run es' (issued_run es st)"
  by (simp add: issued_run_def)

lemma issued_run_Cons: "issued_run (e # es) st = issued_run es (issued_step e st)"
  by (simp add: issued_run_def)

lemma issued_inv_init: "issued_inv CredentialsIssuedCard_init"
  by (simp add: issued_inv_def CredentialsIssuedCard_init_def)

lemma issued_inv_step: "issued_inv st \<Longrightarrow> issued_inv (issued_step e st)"
proof (cases e)
  case Load
  assume "issued_inv st"
  then show ?thesis
    using Load by (auto simp: issued_inv_def issued_load_def)
next
  case (Settled k out)
  assume "issued_inv st"
  then consider "awaiting st = []" | "awaiting st = [LoadIssued (fetchedOnce st)]"
    by (auto simp: issued_inv_def)
  then show ?thesis
  proof cases
    case 1
    then show ?thesis using Settled \<open>issued_inv st\<close> by simp
  next
    case 2
    then show ?thesis
      using Settled \<open>issued_inv st\<close>
      by (auto simp: issued_inv_def remove_nth_def split: sum.split)
  qed
qed

lemma issued_inv_run: "issued_inv st \<Longrightarrow> issued_inv (issued_run es st)"
  by (induction es arbitrary: st) (simp_all add: issued_run_Cons issued_inv_step, simp add: issued_run_def)

lemma issued_step_fetchedOnce: "fetchedOnce st \<Longrightarrow> fetchedOnce (issued_step e st)"
proof (cases e)
  case Load
  assume "fetchedOnce st"
  then show ?thesis using Load by (simp add: issued_load_def)
next
  case (Settled k out)
  assume f: "fetchedOnce st"
  show ?thesis
  proof (cases "k < length (awaiting st)")
    case True
    obtain b where "awaiting st ! k = LoadIssued b" by (cases "awaiting st ! k") auto
    then show ?thesis using Settled True f by (simp split: sum.split)
  next
    case False
    then show ?thesis using Settled f by simp
  qed
qed

lemma issued_run_fetchedOnce: "fetchedOnce st \<Longrightarrow> fetchedOnce (issued_run es st)"
  by (induction es arbitrary: st) (simp_all add: issued_run_Cons issued_step_fetchedOnce, simp add: issued_run_def)

lemma issued_loaded_Inr_fetchedOnce: "fetchedOnce (issued_loaded c (Inr res) st)"
  by (cases c) simp

lemma issued_loaded_Inl:
  "exchanges (issued_loaded (LoadIssued True) (Inl e) st) = exchanges st"
  "loadError (issued_loaded (LoadIssued b) (Inl e) st)
     = Some (if error_message e \<noteq> [] then error_message e
             else ''Failed to load credential exchanges'')"
  by simp_all

text \<open>
  C7.  Take any history in which some fetch of the issued credentials has succeeded
  (\<open>es1\<close>, the successful reply, then any \<open>es2\<close>).  When a fetch that is in flight
  afterwards fails, the held list is exactly what it was, and the failure is surfaced
  in \<open>loadError\<close> as a non-empty message: the error's own message, or a fixed text when
  the error has none.
\<close>

theorem issued_failed_load_keeps_list:
  assumes "k1 < length (awaiting (issued_run es1 CredentialsIssuedCard_init))"
    and "st = issued_run (es1 @ [Settled k1 (Inr res)] @ es2) CredentialsIssuedCard_init"
    and "k < length (awaiting st)"
  shows "exchanges (issued_step (Settled k (Inl e)) st) = exchanges st
         \<and> (\<exists>m. loadError (issued_step (Settled k (Inl e)) st) = Some m \<and> m \<noteq> []
                \<and> (error_message e \<noteq> [] \<longrightarrow> m = error_message e))"
proof -
  have "fetchedOnce (issued_run (es1 @ [Settled k1 (Inr res)]) CredentialsIssuedCard_init)"
    using assms(1) by (simp add: issued_run_snoc issued_loaded_Inr_fetchedOnce)
  then have "fetchedOnce
      (issued_run es2 (issued_run (es1 @ [Settled k1 (Inr res)]) CredentialsIssuedCard_init))"
    by (rule issued_run_fetchedOnce)
  then have f: "fetchedOnce st"
    using assms(2) by (simp add: issued_run_def)
  have "issued_inv st"
    using assms(2) issued_inv_run [OF issued_inv_init] by simp
  with assms(3) f have a: "awaiting st = [LoadIssued True]" and k: "k = 0"
    by (auto simp: issued_inv_def)
  show ?thesis
    using a k by (simp add: issued_loaded_Inl)
qed

theorem issued_failed_load_keeps_list_witness:
  "exchanges
     (issued_run [Load, Settled 0 (Inr (reply_with [conn_item ''c1''])), Load,
                  Settled 0 (Inl gateway_timeout)] CredentialsIssuedCard_init)
   = [flatten (conn_item ''c1'')]
   \<and> loadError
       (issued_run [Load, Settled 0 (Inr (reply_with [conn_item ''c1''])), Load,
                    Settled 0 (Inl gateway_timeout)] CredentialsIssuedCard_init)
     = Some ''Gateway Timeout''"
proof -
  let ?st = "issued_run ([Load] @ [Settled 0 (Inr (reply_with [conn_item ''c1'']))] @ [Load])
               CredentialsIssuedCard_init"
  have 1: "0 < length (awaiting (issued_run [Load] CredentialsIssuedCard_init))"
    by (simp add: issued_run_def CredentialsIssuedCard_init_def issued_load_def)
  have 2: "0 < length (awaiting ?st)"
    by (simp add: issued_run_def CredentialsIssuedCard_init_def issued_load_def
        remove_nth_def)
  have 3: "exchanges ?st = [flatten (conn_item ''c1'')]"
    by (simp add: issued_run_def CredentialsIssuedCard_init_def issued_load_def
        remove_nth_def results_of_def reply_with_def)
  have 4: "error_message gateway_timeout = ''Gateway Timeout''"
    by (simp add: gateway_timeout_def)
  have 5: "issued_run [Load, Settled 0 (Inr (reply_with [conn_item ''c1''])), Load,
                  Settled 0 (Inl gateway_timeout)] CredentialsIssuedCard_init
           = issued_step (Settled 0 (Inl gateway_timeout)) ?st"
    by (simp add: issued_run_def)
  from issued_failed_load_keeps_list [OF 1 refl 2, of gateway_timeout] 3 4 5
  show ?thesis by auto
qed

section \<open>The background credential send\<close>




lemma push_fields [simp]:
  "awaiting (push t st) = awaiting st"
  "pendingCredentials (push t st) = pendingCredentials st"
  by (simp_all add: push_def)

























section \<open>The proofs page: automatic and manual verification\<close>


lemma proofs_run_Nil: "proofs_run [] st = st"
  by (simp add: proofs_run_def)

lemma proofs_run_Cons: "proofs_run (e # es) st = proofs_run es (proofs_step e st)"
  by (simp add: proofs_run_def)

lemma proofs_run_snoc: "proofs_run (es @ [e]) st = proofs_step e (proofs_run es st)"
  by (simp add: proofs_run_def)

lemma auto_ids_append [simp]: "auto_ids (cs @ ds) = auto_ids cs @ auto_ids ds"
  by (induction cs rule: auto_ids.induct) simp_all

lemma auto_ids_mem: "x \<in> set (auto_ids cs) \<longleftrightarrow> (\<exists>r. AutoVerify x r \<in> set cs)"
  by (induction cs rule: auto_ids.induct) auto

lemma auto_ids_take_drop:
  "k < length cs \<Longrightarrow> auto_ids cs = auto_ids (take k cs) @ auto_ids [cs ! k] @ auto_ids (drop (Suc k) cs)"
  by (metis auto_ids_append id_take_nth_drop append_Cons append_Nil)

lemma auto_ids_remove_nth:
  "auto_ids (remove_nth k cs) = auto_ids (take k cs) @ auto_ids (drop (Suc k) cs)"
  by (simp add: remove_nth_def)

lemma auto_ids_remove_nth_subset: "set (auto_ids (remove_nth k cs)) \<subseteq> set (auto_ids cs)"
  by (auto simp: auto_ids_mem remove_nth_def) (blast dest: in_set_takeD in_set_dropD)+

lemma auto_ids_remove_nth_distinct:
  "distinct (auto_ids cs) \<Longrightarrow> distinct (auto_ids (remove_nth k cs))"
proof (cases "k < length cs")
  case True
  assume "distinct (auto_ids cs)"
  then show ?thesis
    using auto_ids_take_drop [OF True] by (auto simp: auto_ids_remove_nth)
next
  case False
  then show "distinct (auto_ids cs) \<Longrightarrow> ?thesis" by (simp add: remove_nth_def)
qed

lemma auto_ids_remove_nth_other:
  assumes "k < length cs" and "\<And>r. cs ! k \<noteq> AutoVerify x r"
  shows "count_list (auto_ids (remove_nth k cs)) x = count_list (auto_ids cs) x"
proof -
  have "count_list (auto_ids [cs ! k]) x = 0"
    using assms(2) by (cases "cs ! k") auto
  then show ?thesis
    using auto_ids_take_drop [OF assms(1)] by (simp add: auto_ids_remove_nth)
qed

lemma auto_ids_remove_nth_self:
  assumes "k < length cs" and "cs ! k = AutoVerify x r" and "distinct (auto_ids cs)"
  shows "x \<notin> set (auto_ids (remove_nth k cs))"
  using assms auto_ids_take_drop [OF assms(1)] by (auto simp: auto_ids_remove_nth)

lemma to_verify_Some: "to_verify p st = Some x \<Longrightarrow> x \<notin> autoVerified st \<and> x \<noteq> []
    \<and> proof_exchangeId p = Some x \<and> isPresentationReceived p"
  by (auto simp: to_verify_def split: option.splits list.splits if_splits)

lemma to_verify_handled: "x \<in> autoVerified st \<Longrightarrow> to_verify p st \<noteq> Some x"
  using to_verify_Some by blast

text \<open>The scan issues at most one call before it waits, for an id that was not handled.\<close>

lemma scan_cases:
  "autoVerifyPresentations ps st = st
   \<or> (\<exists>x r. x \<notin> autoVerified st
        \<and> autoVerifyPresentations ps st
          = st\<lparr>verifying := insert x (verifying st), autoVerified := insert x (autoVerified st),
               requests := requests st @ [POST (verify_path x)],
               awaiting := awaiting st @ [AutoVerify x r]\<rparr>)"
proof (induction ps)
  case Nil
  then show ?case by simp
next
  case (Cons p ps)
  show ?case
  proof (cases "to_verify p st")
    case None
    then show ?thesis using Cons by simp
  next
    case (Some x)
    then have "x \<notin> autoVerified st" using to_verify_Some by blast
    then show ?thesis using Some by auto
  qed
qed

lemma proofs_inv_scan: "proofs_inv st \<Longrightarrow> proofs_inv (autoVerifyPresentations ps st)"
  using scan_cases [of ps st] by (auto simp: proofs_inv_def)

lemma proofs_inv_effect: "proofs_inv st \<Longrightarrow> proofs_inv (proofs_effect st)"
  by (simp add: proofs_effect_def proofs_inv_scan)

lemma push_page_fields [simp]:
  "awaiting (push t st) = awaiting st" "requests (push t st) = requests st"
  "toasts (push t st) = toasts st @ [t]"
  by (simp_all add: push_def)

lemma push_proofs_fields [simp]:
  "autoVerified (push t st) = autoVerified st" "verifying (push t st) = verifying st"
  "proofs (push t st) = proofs st" "reload_timers (push t st) = reload_timers st"
  by (simp_all add: push_def)

lemma proofs_inv_cong:
  "awaiting st' = awaiting st \<Longrightarrow> autoVerified st' = autoVerified st \<Longrightarrow> proofs_inv st'= proofs_inv st"
  by (simp add: proofs_inv_def)

text \<open>An iteration of the scan never throws: its \<open>catch\<close> block takes every error.\<close>

lemma auto_settled_Inr:
  "auto_settled x (Inr res) st
     = Normal (push (success_toast ''Presentation auto-verified''
                  (''Proof exchange '' @ take 8 x @ ''... has been automatically verified.'')) st
               \<lparr>reload_timers := reload_timers st + 1, verifying := verifying st - {x}\<rparr>)"
  by (simp add: auto_settled_def auto_try_def try_catch_finally_def verify_finally_def push_def)

lemma auto_settled_Inl:
  "auto_settled x (Inl err) st
     = Normal (push \<lparr>title = ''Auto-verification failed'',
                   message = Some (if error_message err \<noteq> [] then error_message err
                                   else ''Failed to automatically verify presentation''),
                   intent = ''error''\<rparr> st
               \<lparr>autoVerified := autoVerified st - {x}, verifying := verifying st - {x}\<rparr>)"
  by (simp add: auto_settled_def auto_try_def auto_catch_def try_catch_finally_def
      verify_finally_def push_def)

lemma auto_settled_Normal: "\<exists>s. auto_settled x out st = Normal s"
  by (cases out) (simp_all add: auto_settled_Inr auto_settled_Inl)

lemma manual_settled_fields:
  "autoVerified (state_of (manual_settled x out st)) = autoVerified st"
  "auto_ids (awaiting (state_of (manual_settled x out st))) = auto_ids (awaiting st)"
  by (cases out; simp add: manual_settled_def try_catch_finally_def state_of_def
      verify_finally_def ProofsPage_load_def push_def)+

lemma proofs_inv_remove:
  assumes "proofs_inv st"
  shows "proofs_inv (st\<lparr>awaiting := remove_nth k (awaiting st)\<rparr>)"
  using assms auto_ids_remove_nth_subset [of k "awaiting st"]
  by (auto simp: proofs_inv_def auto_ids_remove_nth_distinct)

lemma proofs_inv_auto_resume:
  assumes "proofs_inv st" and "x \<notin> set (auto_ids (awaiting st))"
  shows "proofs_inv (auto_resume x rest out st)"
proof (cases out)
  case (Inl err)
  have "proofs_inv (push \<lparr>title = ''Auto-verification failed'',
                   message = Some (if error_message err \<noteq> [] then error_message err
                                   else ''Failed to automatically verify presentation''),
                   intent = ''error''\<rparr> st
               \<lparr>autoVerified := autoVerified st - {x}, verifying := verifying st - {x}\<rparr>)"
    using assms by (auto simp: proofs_inv_def)
  then show ?thesis
    using Inl by (simp add: auto_resume_def auto_settled_Inl proofs_inv_scan)
next
  case (Inr res)
  have "proofs_inv (push (success_toast ''Presentation auto-verified''
                  (''Proof exchange '' @ take 8 x @ ''... has been automatically verified.'')) st
               \<lparr>reload_timers := reload_timers st + 1, verifying := verifying st - {x}\<rparr>)"
    using assms by (auto simp: proofs_inv_def)
  then show ?thesis
    using Inr by (simp add: auto_resume_def auto_settled_Inr proofs_inv_scan)
qed

lemma proofs_inv_init: "proofs_inv ProofsPage_init"
  by (simp add: proofs_inv_def ProofsPage_init_def)

lemma proofs_inv_load: "proofs_inv st \<Longrightarrow> proofs_inv (ProofsPage_load st)"
  by (simp add: proofs_inv_def ProofsPage_load_def)

lemma proofs_inv_step:
  assumes "proofs_inv st"
  shows "proofs_inv (proofs_step e st)"
proof (cases e)
  case Refresh
  then show ?thesis using assms by (simp add: proofs_inv_load)
next
  case ReloadTimer
  have "proofs_inv (st\<lparr>reload_timers := reload_timers st - 1\<rparr>)"
    using assms by (simp add: proofs_inv_def)
  then show ?thesis using ReloadTimer assms by (simp add: proofs_inv_load)
next
  case (ClickVerify x)
  then show ?thesis using assms by (simp add: verifyPresentation_def proofs_inv_def)
next
  case (Answered k out)
  show ?thesis
  proof (cases "k < length (awaiting st)")
    case False
    then show ?thesis using Answered assms by simp
  next
    case True
    let ?st0 = "st\<lparr>awaiting := remove_nth k (awaiting st)\<rparr>"
    have inv0: "proofs_inv ?st0" using assms by (rule proofs_inv_remove)
    show ?thesis
    proof (cases "awaiting st ! k")
      case LoadProofs
      have "proofs_inv (ProofsPage_loaded out ?st0)"
      proof (cases out)
        case (Inl err)
        then show ?thesis using inv0 by (simp add: ProofsPage_loaded_def proofs_inv_def)
      next
        case (Inr res)
        have "proofs_inv (?st0\<lparr>proofs := results_of res\<rparr>)"
          using inv0 by (simp add: proofs_inv_def)
        then show ?thesis using Inr by (simp add: ProofsPage_loaded_def proofs_inv_effect)
      qed
      then show ?thesis using Answered True LoadProofs by simp
    next
      case (AutoVerify x rest)
      have "x \<notin> set (auto_ids (awaiting ?st0))"
        using auto_ids_remove_nth_self [OF True AutoVerify] assms by (simp add: proofs_inv_def)
      then have "proofs_inv (auto_resume x rest out ?st0)"
        using inv0 proofs_inv_auto_resume by blast
      then show ?thesis using Answered True AutoVerify by simp
    next
      case (ManualVerify x)
      have "proofs_inv (state_of (manual_settled x out ?st0))"
        using inv0 by (simp add: proofs_inv_def manual_settled_fields)
      then show ?thesis using Answered True ManualVerify by simp
    qed
  qed
qed

lemma proofs_inv_run: "proofs_inv st \<Longrightarrow> proofs_inv (proofs_run es st)"
  by (induction es arbitrary: st) (simp_all add: proofs_inv_step proofs_run_Nil proofs_run_Cons)



lemma verify_path_inj: "verify_path x = verify_path y \<longleftrightarrow> x = y"
  by (simp add: verify_path_def)

lemma scan_frame:
  assumes "x \<in> autoVerified st"
  shows "x \<in> autoVerified (autoVerifyPresentations ps st)"
    and "auto_ids (awaiting (autoVerifyPresentations ps st)) = auto_ids (awaiting st)
         \<or> (\<exists>y. y \<noteq> x \<and> auto_ids (awaiting (autoVerifyPresentations ps st))
                            = auto_ids (awaiting st) @ [y])"
    and "POST (verify_path x)
           \<notin> set (drop (length (requests st)) (requests (autoVerifyPresentations ps st)))"
  using assms scan_cases [of ps st] by (auto simp: POST_def verify_path_inj)

lemma scan_count:
  assumes "x \<in> autoVerified st"
  shows "count_list (auto_ids (awaiting (autoVerifyPresentations ps st))) x
           = count_list (auto_ids (awaiting st)) x"
  using scan_frame(2) [OF assms, of ps] by auto

lemma effect_frame:
  assumes "x \<in> autoVerified st"
  shows "x \<in> autoVerified (proofs_effect st)"
    and "count_list (auto_ids (awaiting (proofs_effect st))) x = count_list (auto_ids (awaiting st)) x"
    and "POST (verify_path x) \<notin> set (drop (length (requests st)) (requests (proofs_effect st)))"
  using assms by (simp_all add: proofs_effect_def scan_frame scan_count)

lemma auto_resume_other:
  assumes "x \<in> autoVerified st" and "y \<noteq> x"
  shows "x \<in> autoVerified (auto_resume y rest out st)"
    and "count_list (auto_ids (awaiting (auto_resume y rest out st))) x
           = count_list (auto_ids (awaiting st)) x"
proof -
  obtain s where s: "auto_settled y out st = Normal s" "x \<in> autoVerified s"
    "awaiting s = awaiting st"
    using assms by (cases out) (auto simp: auto_settled_Inl auto_settled_Inr)
  then show "x \<in> autoVerified (auto_resume y rest out st)"
    and "count_list (auto_ids (awaiting (auto_resume y rest out st))) x
           = count_list (auto_ids (awaiting st)) x"
    by (simp_all add: auto_resume_def scan_frame scan_count)
qed

lemma auto_resume_success:
  assumes "x \<in> autoVerified st"
  shows "x \<in> autoVerified (auto_resume x rest (Inr res) st)"
    and "count_list (auto_ids (awaiting (auto_resume x rest (Inr res) st))) x
           = count_list (auto_ids (awaiting st)) x"
  using assms by (simp_all add: auto_resume_def auto_settled_Inr scan_frame scan_count)

text \<open>
  An event other than the settling of the scan's own call for \<open>x\<close> leaves a handled
  \<open>x\<close> handled and starts no verification of \<open>x\<close> by the scan.
\<close>

lemma step_keeps_handled:
  assumes "x \<in> autoVerified st"
    and "\<And>k out r. e = Answered k out \<Longrightarrow> k < length (awaiting st)
            \<Longrightarrow> awaiting st ! k \<noteq> AutoVerify x r"
  shows "x \<in> autoVerified (proofs_step e st)
         \<and> count_list (auto_ids (awaiting (proofs_step e st))) x
             = count_list (auto_ids (awaiting st)) x"
proof (cases e)
  case Refresh
  then show ?thesis using assms(1) by (simp add: ProofsPage_load_def)
next
  case ReloadTimer
  then show ?thesis using assms(1) by (simp add: ProofsPage_load_def)
next
  case (ClickVerify i)
  then show ?thesis using assms(1) by (simp add: verifyPresentation_def)
next
  case (Answered k out)
  show ?thesis
  proof (cases "k < length (awaiting st)")
    case False
    then show ?thesis using Answered assms(1) by simp
  next
    case True
    let ?st0 = "st\<lparr>awaiting := remove_nth k (awaiting st)\<rparr>"
    have other: "\<And>r. awaiting st ! k \<noteq> AutoVerify x r"
      using assms(2) Answered True by blast
    have c0: "count_list (auto_ids (awaiting ?st0)) x = count_list (auto_ids (awaiting st)) x"
      using auto_ids_remove_nth_other [OF True other] by simp
    have h0: "x \<in> autoVerified ?st0" using assms(1) by simp
    show ?thesis
    proof (cases "awaiting st ! k")
      case LoadProofs
      have "x \<in> autoVerified (ProofsPage_loaded out ?st0)
          \<and> count_list (auto_ids (awaiting (ProofsPage_loaded out ?st0))) x
              = count_list (auto_ids (awaiting ?st0)) x"
      proof (cases out)
        case (Inl err)
        then show ?thesis using h0 by (simp add: ProofsPage_loaded_def)
      next
        case (Inr res)
        have "x \<in> autoVerified (?st0\<lparr>proofs := results_of res\<rparr>)" using h0 by simp
        from effect_frame(1,2) [OF this] show ?thesis
          using Inr by (simp add: ProofsPage_loaded_def)
      qed
      then show ?thesis using Answered True LoadProofs c0 by simp
    next
      case (AutoVerify y rest)
      then have "y \<noteq> x" using other by auto
      from auto_resume_other [OF h0 this] show ?thesis
        using Answered True AutoVerify c0 by simp
    next
      case (ManualVerify y)
      then show ?thesis
        using Answered True c0 h0 by (simp add: manual_settled_fields)
    qed
  qed
qed



lemma handled_run:
  assumes "x \<in> autoVerified st" and "x \<notin> set (auto_ids (awaiting st))"
  shows "x \<in> autoVerified (proofs_run es st) \<and> x \<notin> set (auto_ids (awaiting (proofs_run es st)))"
  using assms
proof (induction es arbitrary: st)
  case Nil
  then show ?case by (simp add: proofs_run_Nil)
next
  case (Cons e es)
  have "\<And>k out r. e = Answered k out \<Longrightarrow> k < length (awaiting st)
            \<Longrightarrow> awaiting st ! k \<noteq> AutoVerify x r"
    using Cons.prems(2) by (metis auto_ids_mem nth_mem)
  from step_keeps_handled [OF Cons.prems(1) this]
  have "x \<in> autoVerified (proofs_step e st)"
    and "count_list (auto_ids (awaiting (proofs_step e st))) x
          = count_list (auto_ids (awaiting st)) x"
    by auto
  moreover have "count_list (auto_ids (awaiting st)) x = 0"
    using Cons.prems(2) by (simp add: count_list_0_iff)
  ultimately have "x \<in> autoVerified (proofs_step e st)"
    and "x \<notin> set (auto_ids (awaiting (proofs_step e st)))"
    by (simp_all add: count_list_0_iff)
  from Cons.IH [OF this] show ?case by (simp add: proofs_run_Cons)
qed

text \<open>A scan reaches every record that is due.\<close>

lemma scan_reaches:
  assumes "\<exists>p \<in> set ps. to_verify p s = Some x"
  shows "\<exists>y r. autoVerifyPresentations ps s
                 = s\<lparr>verifying := insert y (verifying s), autoVerified := insert y (autoVerified s),
                      requests := requests s @ [POST (verify_path y)],
                      awaiting := awaiting s @ [AutoVerify y r]\<rparr>
               \<and> (y = x \<or> (\<exists>p \<in> set r. to_verify p s = Some x))"
  using assms
proof (induction ps)
  case Nil
  then show ?case by simp
next
  case (Cons p ps)
  show ?case
  proof (cases "to_verify p s")
    case None
    with Cons.prems have "\<exists>p \<in> set ps. to_verify p s = Some x" by auto
    from Cons.IH [OF this] show ?thesis using None by simp
  next
    case (Some y)
    with Cons.prems have "y = x \<or> (\<exists>p \<in> set ps. to_verify p s = Some x)" by auto
    then show ?thesis using Some by auto
  qed
qed

text \<open>
  C2 (amended).  On a mounted proofs page, take a reachable state in which the scan's
  verify call for \<open>x\<close> is in flight.  If the call succeeds, then after any further
  events whatever (refreshes with any snapshots included) \<open>x\<close> is in the handled set and
  the scan has no call for \<open>x\<close> in flight: it never verifies \<open>x\<close> again.  If the call
  fails, \<open>x\<close> is out of the handled set unless the same scan has already issued the
  call for \<open>x\<close> anew.  And a scan over a snapshot with a record due for \<open>x\<close> (received,
  not handled) issues a verify call: for \<open>x\<close>, or for an earlier record with the record
  of \<open>x\<close> still to visit.
\<close>

theorem auto_verify_once_per_mount:
  assumes "st = proofs_run es ProofsPage_init" and "k < length (awaiting st)"
    and "awaiting st ! k = AutoVerify x rest"
  shows "(\<forall>es'. x \<in> autoVerified (proofs_run es' (proofs_step (Answered k (Inr res)) st))
               \<and> x \<notin> set (auto_ids (awaiting
                            (proofs_run es' (proofs_step (Answered k (Inr res)) st)))))
         \<and> (x \<in> autoVerified (proofs_step (Answered k (Inl err)) st)
              \<longrightarrow> x \<in> set (auto_ids (awaiting (proofs_step (Answered k (Inl err)) st))))
         \<and> (\<forall>s ps. (\<exists>p \<in> set ps. to_verify p s = Some x)
              \<longrightarrow> (\<exists>y r. awaiting (autoVerifyPresentations ps s) = awaiting s @ [AutoVerify y r]
                      \<and> requests (autoVerifyPresentations ps s)
                          = requests s @ [POST (verify_path y)]
                      \<and> (y = x \<or> (\<exists>p \<in> set r. to_verify p s = Some x))))"
proof -
  let ?st0 = "st\<lparr>awaiting := remove_nth k (awaiting st)\<rparr>"
  have inv: "proofs_inv st"
    using assms(1) proofs_inv_run [OF proofs_inv_init] by simp
  have "x \<in> set (auto_ids (awaiting st))"
    using assms(2,3) by (metis auto_ids_mem nth_mem)
  with inv have h: "x \<in> autoVerified ?st0" by (auto simp: proofs_inv_def)
  have gone: "x \<notin> set (auto_ids (awaiting ?st0))"
    using auto_ids_remove_nth_self [OF assms(2,3)] inv by (simp add: proofs_inv_def)
  have step_ok: "proofs_step (Answered k (Inr res)) st = auto_resume x rest (Inr res) ?st0"
    and step_bad: "proofs_step (Answered k (Inl err)) st = auto_resume x rest (Inl err) ?st0"
    using assms(2,3) by simp_all
  have "x \<in> autoVerified (auto_resume x rest (Inr res) ?st0)"
    and "x \<notin> set (auto_ids (awaiting (auto_resume x rest (Inr res) ?st0)))"
    using auto_resume_success [OF h, of rest res] gone by (simp_all flip: count_list_0_iff)
  then have ok: "x \<in> autoVerified (proofs_run es' (proofs_step (Answered k (Inr res)) st))
      \<and> x \<notin> set (auto_ids (awaiting (proofs_run es' (proofs_step (Answered k (Inr res)) st))))"
    for es'
    using handled_run step_ok by simp
  let ?s1 = "push \<lparr>title = ''Auto-verification failed'',
                   message = Some (if error_message err \<noteq> [] then error_message err
                                   else ''Failed to automatically verify presentation''),
                   intent = ''error''\<rparr> ?st0
               \<lparr>autoVerified := autoVerified ?st0 - {x}, verifying := verifying ?st0 - {x}\<rparr>"
  have bad_eq: "proofs_step (Answered k (Inl err)) st = autoVerifyPresentations rest ?s1"
    using step_bad by (simp add: auto_resume_def auto_settled_Inl)
  have bad: "x \<in> set (auto_ids (awaiting (proofs_step (Answered k (Inl err)) st)))"
    if "x \<in> autoVerified (proofs_step (Answered k (Inl err)) st)"
    using that scan_cases [of rest ?s1] unfolding bad_eq by auto
  have retry: "\<exists>y r. awaiting (autoVerifyPresentations ps s) = awaiting s @ [AutoVerify y r]
                      \<and> requests (autoVerifyPresentations ps s)
                          = requests s @ [POST (verify_path y)]
                      \<and> (y = x \<or> (\<exists>p \<in> set r. to_verify p s = Some x))"
    if "\<exists>p \<in> set ps. to_verify p s = Some x" for s ps
    using scan_reaches [OF that] by force
  from ok bad retry show ?thesis by blast
qed



lemma app_run_Nil: "app_run [] st = st"
  by (simp add: app_run_def)

lemma app_run_Cons: "app_run (e # es) st = app_run es (app_step e st)"
  by (simp add: app_run_def)

lemmas proofs_eval =
  proofs_run_Nil proofs_run_Cons app_run_Nil app_run_Cons ProofsPage_init_def ProofsPage_load_def ProofsPage_loaded_def proofs_effect_def
  to_verify_def proof_exchangeId_def isPresentationReceived_def str_or_def or_else_def
  pres_item_def blank_def item.truncate_def results_of_def reply_with_def remove_nth_def
  px1_received_def px1_px2_received_def auto_resume_def auto_settled_Inl auto_settled_Inr
  verifyPresentation_def key_of_def manual_settled_def try_catch_finally_def state_of_def
  verify_finally_def no_reply_def Let_def

lemma px1_in_flight:
  "awaiting (proofs_run [Refresh, Answered 0 (Inr px1_received)] ProofsPage_init)
     = [AutoVerify ''px-1'' []]"
  "autoVerified (proofs_run [Refresh, Answered 0 (Inr px1_received)] ProofsPage_init) = {''px-1''}"
  by (simp_all add: proofs_eval)


text \<open>
  C2 (as stated, refuted).  The handled set lives in a ref of the page component.  After
  \<open>px-1\<close> was verified automatically, leaving the page and coming back mounts a new
  instance with an empty set, and a snapshot that still shows \<open>px-1\<close> as received makes
  the scan verify it again.
\<close>

theorem auto_verify_again_after_remount:
  "map path (requests
     (app_run
        [OnPage Refresh, OnPage (Answered 0 (Inr px1_received)), OnPage (Answered 0 no_reply),
         LeaveAndReturn, OnPage (Answered 0 (Inr px1_received))]
        ProofsPage_init))
   = [''/api/proofs'', ''/api/proofs/px-1/verify'', ''/api/proofs'', ''/api/proofs/px-1/verify'']
   \<and> awaiting
     (app_run
        [OnPage Refresh, OnPage (Answered 0 (Inr px1_received)), OnPage (Answered 0 no_reply),
         LeaveAndReturn, OnPage (Answered 0 (Inr px1_received))]
        ProofsPage_init)
   = [AutoVerify ''px-1'' []]"
  by (simp add: proofs_eval ProofsPage_remount_def GET_def POST_def verify_path_def)

theorem auto_verify_once_per_mount_witness:
  "''px-1'' \<in> autoVerified
      (proofs_run [Refresh, Answered 0 (Inr px1_received)]
         (proofs_step (Answered 0 no_reply)
            (proofs_run [Refresh, Answered 0 (Inr px1_received)] ProofsPage_init)))
   \<and> ''px-1'' \<notin> set (auto_ids (awaiting
      (proofs_run [Refresh, Answered 0 (Inr px1_received)]
         (proofs_step (Answered 0 no_reply)
            (proofs_run [Refresh, Answered 0 (Inr px1_received)] ProofsPage_init)))))"
proof -
  let ?st = "proofs_run [Refresh, Answered 0 (Inr px1_received)] ProofsPage_init"
  have 1: "0 < length (awaiting ?st)" and 2: "awaiting ?st ! 0 = AutoVerify ''px-1'' []"
    by (simp_all add: px1_in_flight)
  from auto_verify_once_per_mount [OF refl 1 2, of None gateway_timeout]
  show ?thesis unfolding no_reply_def by blast
qed



section \<open>Racing refreshes: the reply that arrives last wins\<close>

lemma scan_proofs [simp]: "proofs (autoVerifyPresentations ps st) = proofs st"
  using scan_cases [of ps st] by auto

lemma ProofsPage_loaded_proofs:
  "proofs (ProofsPage_loaded (Inr res) st) = results_of res"
  "proofs (ProofsPage_loaded (Inl e) st) = proofs st"
  by (simp_all add: ProofsPage_loaded_def proofs_effect_def)

text \<open>
  C4 (amended).  Refreshes carry no sequence number and no reply is discarded.  After any
  trace of refreshes and replies, the list shown by \<open>useConnections\<close> (Alice) is the
  successful reply that arrived last, whichever refresh it answers, and the empty list
  when none has arrived.  Step by step, for \<open>useConnections.load\<close> and for
  \<open>ProofsPage.load\<close> (Acme): a successful reply to any refresh still in flight replaces
  the list when it arrives, and a failed one leaves the list as it is.
\<close>

theorem last_arrival_wins:
  "connections (useConnections_run es useConnections_init)
     = (case arrived es 0 of [] \<Rightarrow> [] | r # rs \<Rightarrow> results_of (last (r # rs)))
   \<and> (k < length (awaiting (useConnections_run es useConnections_init)) \<longrightarrow>
      connections (useConnections_run (es @ [Settled k (Inr res)]) useConnections_init)
        = results_of res
      \<and> connections (useConnections_run (es @ [Settled k (Inl e)]) useConnections_init)
        = connections (useConnections_run es useConnections_init))
   \<and> (j < length (awaiting (proofs_run ps ProofsPage_init))
        \<and> awaiting (proofs_run ps ProofsPage_init) ! j = LoadProofs \<longrightarrow>
      proofs (proofs_run (ps @ [Answered j (Inr res)]) ProofsPage_init) = results_of res
      \<and> proofs (proofs_run (ps @ [Answered j (Inl e)]) ProofsPage_init)
        = proofs (proofs_run ps ProofsPage_init))"
proof -
  have "connections (useConnections_run es useConnections_init)
     = (case arrived es 0 of [] \<Rightarrow> [] | r # rs \<Rightarrow> results_of (last (r # rs)))"
  proof -
    have "awaiting useConnections_init = []" and "connections useConnections_init = []"
      by (simp_all add: useConnections_init_def)
    then show ?thesis
      using useConnections_shows_last [of es useConnections_init]
      by (simp split: list.split)
  qed
  then show ?thesis
    by (simp add: useConnections_run_snoc proofs_run_snoc ProofsPage_loaded_proofs)
qed

theorem last_arrival_wins_witness:
  "connections
     (useConnections_run
        ([Load, Load, Settled 1 (Inr (reply_with [conn_item ''second'']))]
         @ [Settled 0 (Inr (reply_with [conn_item ''first'']))])
        useConnections_init)
   = results_of (reply_with [conn_item ''first''])
   \<and> proofs
     (proofs_run
        ([Refresh, Refresh, Answered 1 (Inr (reply_with [conn_item ''second'']))]
         @ [Answered 0 (Inr (reply_with [conn_item ''first'']))])
        ProofsPage_init)
   = results_of (reply_with [conn_item ''first''])"
proof -
  have 1: "0 < length (awaiting (useConnections_run
          [Load, Load, Settled 1 (Inr (reply_with [conn_item ''second'']))]
          useConnections_init))"
    by (simp add: useConnections_run_def useConnections_init_def useConnections_load_def
        useConnections_loaded_def remove_nth_def)
  have "awaiting (proofs_run
          [Refresh, Refresh, Answered 1 (Inr (reply_with [conn_item ''second'']))]
          ProofsPage_init) = [LoadProofs]"
    by (simp add: proofs_eval conn_item_def)
  then have 2: "0 < length (awaiting (proofs_run
          [Refresh, Refresh, Answered 1 (Inr (reply_with [conn_item ''second'']))]
          ProofsPage_init))
      \<and> awaiting (proofs_run
          [Refresh, Refresh, Answered 1 (Inr (reply_with [conn_item ''second'']))]
          ProofsPage_init) ! 0 = LoadProofs"
    by simp
  from last_arrival_wins
    [where k = 0 and j = 0 and res = "reply_with [conn_item ''first'']"
       and e = gateway_timeout
       and es = "[Load, Load, Settled 1 (Inr (reply_with [conn_item ''second'']))]"
       and ps = "[Refresh, Refresh, Answered 1 (Inr (reply_with [conn_item ''second'']))]"]
    1 2
  show ?thesis by blast
qed

section \<open>The credentials page: clicks while a call is in flight\<close>






lemma loadExchanges_fields [simp]:
  "awaiting (loadExchanges c st) = awaiting st @ [LoadExchanges]"
  "storing (loadExchanges c st) = storing st"
  "acceptingOffer (loadExchanges c st) = acceptingOffer st"
  by (cases c; simp add: loadExchanges_def)+

lemma loadStored_fields [simp]:
  "awaiting (loadStored c st) = awaiting st @ [LoadStored]"
  "storing (loadStored c st) = storing st"
  "acceptingOffer (loadStored c st) = acceptingOffer st"
  by (cases c; simp add: loadStored_def)+

lemma push_cred_fields [simp]:
  "storing (push t st) = storing st" "acceptingOffer (push t st) = acceptingOffer st"
  by (simp_all add: push_def)

lemma push_awaiting [simp]: "awaiting (push t st) = awaiting st"
  by (simp add: push_def)

lemma loadExchanges_settled_fields [simp]:
  "awaiting (state_of (loadExchanges_settled c out st)) = awaiting st"
  "storing (state_of (loadExchanges_settled c out st)) = storing st"
  "acceptingOffer (state_of (loadExchanges_settled c out st)) = acceptingOffer st"
  by (cases c; cases out;
      simp add: loadExchanges_settled_def try_catch_finally_def await_def state_of_def)+

lemma loadStored_settled_fields [simp]:
  "awaiting (state_of (loadStored_settled c out st)) = awaiting st"
  "storing (state_of (loadStored_settled c out st)) = storing st"
  "acceptingOffer (state_of (loadStored_settled c out st)) = acceptingOffer st"
  by (cases c; cases out;
      simp add: loadStored_settled_def try_catch_finally_def await_def state_of_def)+

lemma storeCredential_settled_fields [simp]:
  "storing (state_of (storeCredential_settled c i out st)) = storing st - {i}"
  "acceptingOffer (state_of (storeCredential_settled c i out st)) = acceptingOffer st"
  "count_list (awaiting (state_of (storeCredential_settled c i out st))) (StoreCred j)
     = count_list (awaiting st) (StoreCred j)"
  "count_list (awaiting (state_of (storeCredential_settled c i out st))) (AcceptOffer j)
     = count_list (awaiting st) (AcceptOffer j)"
  by (cases out;
      simp add: storeCredential_settled_def try_catch_finally_def await_def state_of_def)+

lemma acceptCredentialOffer_settled_fields [simp]:
  "storing (state_of (acceptCredentialOffer_settled c i out st)) = storing st"
  "acceptingOffer (state_of (acceptCredentialOffer_settled c i out st)) = acceptingOffer st - {i}"
  "count_list (awaiting (state_of (acceptCredentialOffer_settled c i out st))) (StoreCred j)
     = count_list (awaiting st) (StoreCred j)"
  "count_list (awaiting (state_of (acceptCredentialOffer_settled c i out st))) (AcceptOffer j)
     = count_list (awaiting st) (AcceptOffer j)"
  by (cases out;
      simp add: acceptCredentialOffer_settled_def try_catch_finally_def await_def state_of_def)+






section \<open>State tags on the Acme proofs page\<close>

text \<open>
  The scan of the Acme proofs page treats the two spellings of \<open>presentation received\<close>
  alike: whether a record is due does not depend on which one its state carries.
\<close>

lemma acme_presentation_received_synonyms:
  "to_verify (p\<lparr>state := Some ''presentation_received''\<rparr>) st
     = to_verify (p\<lparr>state := Some ''presentation-received''\<rparr>) st"
  by (simp add: to_verify_def proof_exchangeId_def isPresentationReceived_def or_else_def Let_def
      split: option.split list.split)

end
